theory Spec2Isabelle
  imports Main
begin

section \<open>Python list primitives used by BakeryLock\<close>

text \<open>
  The exceptions the list operations of \<^verbatim>\<open>BakeryLock.py\<close> can raise: an index out of
  range (\<^verbatim>\<open>xs[i]\<close>) and \<^verbatim>\<open>max\<close> of an empty sequence.
\<close>

datatype error = IndexError | ValueError

text \<open>
  Python resolves a list index \<open>i\<close> against a list of length \<open>len\<close>: a negative index counts
  from the end (\<open>len + i\<close>), and an index that is still outside \<open>[0, len)\<close> raises.
\<close>

definition py_index :: "'a list \<Rightarrow> int \<Rightarrow> error + nat" where
  "py_index xs i =
     (let len = int (length xs); k = (if i < 0 then len + i else i)
      in if 0 \<le> k \<and> k < len then Inr (nat k) else Inl IndexError)"

definition py_getitem :: "'a list \<Rightarrow> int \<Rightarrow> error + 'a" where
  "py_getitem xs i = (case py_index xs i of Inl e \<Rightarrow> Inl e | Inr k \<Rightarrow> Inr (xs ! k))"

definition py_setitem :: "'a list \<Rightarrow> int \<Rightarrow> 'a \<Rightarrow> error + 'a list" where
  "py_setitem xs i v = (case py_index xs i of Inl e \<Rightarrow> Inl e | Inr k \<Rightarrow> Inr (xs[k := v]))"

text \<open>\<^verbatim>\<open>max(xs)\<close>: the largest element, \<^verbatim>\<open>ValueError\<close> on an empty list.\<close>

definition py_max :: "int list \<Rightarrow> error + int" where
  "py_max xs = (case xs of [] \<Rightarrow> Inl ValueError | x # ys \<Rightarrow> Inr (fold max ys x))"

text \<open>\<^verbatim>\<open>[x] * k\<close>: \<open>k\<close> copies of \<open>x\<close>, the empty list when \<open>k \<le> 0\<close>.\<close>

definition py_repeat :: "'a \<Rightarrow> int \<Rightarrow> 'a list" where
  "py_repeat x k = replicate (nat k) x"

text \<open>\<^verbatim>\<open>range(k)\<close>: \<open>0, 1, ..., k - 1\<close>, empty when \<open>k \<le> 0\<close>.\<close>

definition py_range :: "int \<Rightarrow> int list" where
  "py_range k = map int [0..<nat k]"

section \<open>The lock object\<close>

text \<open>
  \<^verbatim>\<open>class BakeryLock\<close>: the attributes \<^verbatim>\<open>self.n\<close>, \<^verbatim>\<open>self.choosing\<close> and
  \<^verbatim>\<open>self.number\<close>. Ticket numbers are Python's unbounded integers.
\<close>

record BakeryLock =
  n :: int
  choosing :: "bool list"
  number :: "int list"

text \<open>
  A method call either returns (\<open>Inr\<close>, with the object as the call left it) or raises
  (\<open>Inl\<close>, with the exception and the object as it was when the exception left the method).
\<close>

type_synonym outcome = "(error \<times> BakeryLock) + BakeryLock"

text \<open>\<^verbatim>\<open>__init__\<close>, lines 6 to 9.\<close>

definition BakeryLock_init :: "int \<Rightarrow> BakeryLock" where
  "BakeryLock_init n_processes =
     \<lparr> n = n_processes,
       choosing = py_repeat False n_processes,
       number = py_repeat 0 n_processes \<rparr>"

text \<open>\<^verbatim>\<open>unlock\<close>, lines 34 and 35: the single assignment \<^verbatim>\<open>self.number[pid] = 0\<close>.\<close>

definition unlock :: "BakeryLock \<Rightarrow> int \<Rightarrow> outcome" where
  "unlock s pid =
     (case py_setitem (number s) pid 0 of
        Inl e \<Rightarrow> Inl (e, s)
      | Inr nums \<Rightarrow> Inr (s\<lparr>number := nums\<rparr>))"

text \<open>
  The first three statements of \<^verbatim>\<open>lock\<close>, lines 13 to 19: announce, draw the ticket
  (the right-hand side \<^verbatim>\<open>max(self.number) + 1\<close> is evaluated before the store), stop
  announcing.
\<close>

definition lock_draw :: "BakeryLock \<Rightarrow> int \<Rightarrow> outcome" where
  "lock_draw s pid =
     (case py_setitem (choosing s) pid True of
        Inl e \<Rightarrow> Inl (e, s)
      | Inr c1 \<Rightarrow>
          (let s1 = s\<lparr>choosing := c1\<rparr> in
           case py_max (number s1) of
             Inl e \<Rightarrow> Inl (e, s1)
           | Inr m \<Rightarrow>
               (case py_setitem (number s1) pid (m + 1) of
                  Inl e \<Rightarrow> Inl (e, s1)
                | Inr nums \<Rightarrow>
                    (let s2 = s1\<lparr>number := nums\<rparr> in
                     case py_setitem (choosing s2) pid False of
                       Inl e \<Rightarrow> Inl (e, s2)
                     | Inr c3 \<Rightarrow> Inr (s2\<lparr>choosing := c3\<rparr>)))))"

text \<open>
  The condition of the second busy-wait loop, lines 28 to 31, with Python's short-circuit
  evaluation: each \<^verbatim>\<open>self.number[...]\<close> is a read of its own, made only when the
  operands to its left did not already decide the result.
\<close>

definition wait_cond :: "BakeryLock \<Rightarrow> int \<Rightarrow> int \<Rightarrow> error + bool" where
  "wait_cond s pid j =
     (case py_getitem (number s) j of
        Inl e \<Rightarrow> Inl e
      | Inr a \<Rightarrow>
          if a \<noteq> 0 then
            (case py_getitem (number s) j of
               Inl e \<Rightarrow> Inl e
             | Inr b \<Rightarrow>
                 (case py_getitem (number s) pid of
                    Inl e \<Rightarrow> Inl e
                  | Inr p \<Rightarrow>
                      if b < p then Inr True
                      else
                        (case py_getitem (number s) j of
                           Inl e \<Rightarrow> Inl e
                         | Inr c \<Rightarrow>
                             (case py_getitem (number s) pid of
                                Inl e \<Rightarrow> Inl e
                              | Inr q \<Rightarrow> if c = q then Inr (j < pid) else Inr False))))
          else Inr False)"

text \<open>
  The two busy-wait loops, run by one caller on a registry nobody else writes: a loop whose
  condition holds never exits, which is the value \<open>None\<close>.
\<close>

partial_function (option) wait_choosing :: "BakeryLock \<Rightarrow> int \<Rightarrow> outcome option" where
  "wait_choosing s j =
     (case py_getitem (choosing s) j of
        Inl e \<Rightarrow> Some (Inl (e, s))
      | Inr b \<Rightarrow> if b then wait_choosing s j else Some (Inr s))"

partial_function (option) wait_number :: "BakeryLock \<Rightarrow> int \<Rightarrow> int \<Rightarrow> outcome option" where
  "wait_number s pid j =
     (case wait_cond s pid j of
        Inl e \<Rightarrow> Some (Inl (e, s))
      | Inr b \<Rightarrow> if b then wait_number s pid j else Some (Inr s))"

text \<open>The \<^verbatim>\<open>for j in range(self.n)\<close> loop, lines 22 to 32, over the remaining values of \<open>j\<close>.\<close>

fun wait_all :: "BakeryLock \<Rightarrow> int \<Rightarrow> int list \<Rightarrow> outcome option" where
  "wait_all s pid [] = Some (Inr s)"
| "wait_all s pid (j # js) =
     (case wait_choosing s j of
        None \<Rightarrow> None
      | Some (Inl x) \<Rightarrow> Some (Inl x)
      | Some (Inr s1) \<Rightarrow>
          (case wait_number s1 pid j of
             None \<Rightarrow> None
           | Some (Inl x) \<Rightarrow> Some (Inl x)
           | Some (Inr s2) \<Rightarrow> wait_all s2 pid js))"

text \<open>\<^verbatim>\<open>lock\<close>, lines 11 to 32.\<close>

definition lock :: "BakeryLock \<Rightarrow> int \<Rightarrow> outcome option" where
  "lock s pid =
     (case lock_draw s pid of
        Inl x \<Rightarrow> Some (Inl x)
      | Inr s1 \<Rightarrow> wait_all s1 pid (py_range (n s1)))"

text \<open>
  A registry as the constructor builds it and the methods keep it: both lists have
  \<^verbatim>\<open>self.n\<close> slots.
\<close>

definition registry_ok :: "BakeryLock \<Rightarrow> bool" where
  "registry_ok s \<longleftrightarrow>
     length (choosing s) = nat (n s) \<and> length (number s) = nat (n s)"

text \<open>No ticket number is negative: 0 for a process that holds no ticket, positive otherwise.\<close>

definition tickets_ok :: "BakeryLock \<Rightarrow> bool" where
  "tickets_ok s \<longleftrightarrow> list_all (\<lambda>x. 0 \<le> x) (number s)"

text \<open>A process identity of the lock: an integer in \<open>[0, n)\<close>.\<close>

definition valid_pid :: "BakeryLock \<Rightarrow> int \<Rightarrow> bool" where
  "valid_pid s pid \<longleftrightarrow> 0 \<le> pid \<and> pid < n s"

section \<open>Interleaved executions of the client processes\<close>

text \<open>
  \<open>N\<close> client processes with the identities \<open>0, ..., N - 1\<close> share one lock object. Each
  of them repeats: call \<^verbatim>\<open>lock(pid)\<close>, stay in its critical section, call
  \<^verbatim>\<open>unlock(pid)\<close>. The registry is the only shared memory, and an execution is an
  interleaving of steps of the processes in which every step reads or writes at most one slot
  of the registry. A control point says where a process is in \<^verbatim>\<open>BakeryLock.py\<close> and
  holds the values the process has read so far:

  \<^item> \<open>Idle\<close>: outside \<^verbatim>\<open>lock\<close> and \<^verbatim>\<open>unlock\<close>; the next step is line 13,
    \<^verbatim>\<open>self.choosing[pid] = True\<close>;
  \<^item> \<open>Scan vs\<close>: line 16, inside \<^verbatim>\<open>max(self.number)\<close>, having read the entries \<open>vs\<close> of
    \<^verbatim>\<open>self.number\<close> one at a time from index 0; when all are read the next step stores
    \<^verbatim>\<open>max(vs) + 1\<close> into \<^verbatim>\<open>self.number[pid]\<close>;
  \<^item> \<open>Clear\<close>: line 19, \<^verbatim>\<open>self.choosing[pid] = False\<close>;
  \<^item> \<open>For j\<close>: line 22, the head of the \<^verbatim>\<open>for\<close> loop with the next value \<open>j\<close>;
  \<^item> \<open>Wait_choosing j\<close>: line 24, about to read \<^verbatim>\<open>self.choosing[j]\<close>;
  \<^item> \<open>Wait_nonzero j\<close>: line 28, about to read \<^verbatim>\<open>self.number[j]\<close> for \<^verbatim>\<open>!= 0\<close>;
  \<^item> \<open>Less_j j\<close> and \<open>Less_pid j a\<close>: line 29, about to read \<^verbatim>\<open>self.number[j]\<close>, and
    then, with its value \<open>a\<close>, \<^verbatim>\<open>self.number[pid]\<close> for the comparison \<^verbatim>\<open><\<close>;
  \<^item> \<open>Equal_j j\<close> and \<open>Equal_pid j a\<close>: line 30, the same two reads for \<^verbatim>\<open>==\<close>, followed
    by \<^verbatim>\<open>j < pid\<close>;
  \<^item> \<open>Critical\<close>: \<^verbatim>\<open>lock\<close> has returned; the next step is line 35 of \<^verbatim>\<open>unlock\<close>,
    \<^verbatim>\<open>self.number[pid] = 0\<close>;
  \<^item> \<open>Raised e\<close>: an exception left the method.
\<close>

datatype pc =
    Idle
  | Scan "int list"
  | Clear
  | For nat
  | Wait_choosing nat
  | Wait_nonzero nat
  | Less_j nat
  | Less_pid nat int
  | Equal_j nat
  | Equal_pid nat int
  | Critical
  | Raised error

record system =
  reg :: BakeryLock
  at :: "nat \<Rightarrow> pc"

definition goto :: "system \<Rightarrow> nat \<Rightarrow> pc \<Rightarrow> system" where
  "goto c pid p = c\<lparr>at := (at c)(pid := p)\<rparr>"

text \<open>
  One step of process \<open>pid\<close>. A busy-wait loop whose condition holds runs \<^verbatim>\<open>pass\<close> and
  evaluates its condition again from the first operand.
\<close>

definition proc_step :: "system \<Rightarrow> nat \<Rightarrow> system" where
  "proc_step c pid =
     (let r = reg c in
      case at c pid of
        Idle \<Rightarrow> goto (c\<lparr>reg := r\<lparr>choosing := (choosing r)[pid := True]\<rparr>\<rparr>) pid (Scan [])
      | Scan vs \<Rightarrow>
          if length vs < length (number r) then goto c pid (Scan (vs @ [number r ! length vs]))
          else
            (case py_max vs of
               Inl e \<Rightarrow> goto c pid (Raised e)
             | Inr m \<Rightarrow> goto (c\<lparr>reg := r\<lparr>number := (number r)[pid := m + 1]\<rparr>\<rparr>) pid Clear)
      | Clear \<Rightarrow> goto (c\<lparr>reg := r\<lparr>choosing := (choosing r)[pid := False]\<rparr>\<rparr>) pid (For 0)
      | For j \<Rightarrow> if int j < n r then goto c pid (Wait_choosing j) else goto c pid Critical
      | Wait_choosing j \<Rightarrow> if choosing r ! j then c else goto c pid (Wait_nonzero j)
      | Wait_nonzero j \<Rightarrow>
          if number r ! j \<noteq> 0 then goto c pid (Less_j j) else goto c pid (For (Suc j))
      | Less_j j \<Rightarrow> goto c pid (Less_pid j (number r ! j))
      | Less_pid j a \<Rightarrow>
          if a < number r ! pid then goto c pid (Wait_nonzero j) else goto c pid (Equal_j j)
      | Equal_j j \<Rightarrow> goto c pid (Equal_pid j (number r ! j))
      | Equal_pid j a \<Rightarrow>
          if a = number r ! pid \<and> j < pid then goto c pid (Wait_nonzero j)
          else goto c pid (For (Suc j))
      | Critical \<Rightarrow> goto (c\<lparr>reg := r\<lparr>number := (number r)[pid := 0]\<rparr>\<rparr>) pid Idle
      | Raised e \<Rightarrow> c)"

text \<open>The lock as \<^verbatim>\<open>BakeryLock(N)\<close> builds it, with every process outside the lock.\<close>

definition initial :: "nat \<Rightarrow> system" where
  "initial N = \<lparr>reg = BakeryLock_init (int N), at = (\<lambda>_. Idle)\<rparr>"

text \<open>
  An execution under a schedule: the list of the identities of the processes that take the
  successive steps.
\<close>

definition run :: "system \<Rightarrow> nat list \<Rightarrow> system" where
  "run c sched = foldl proc_step c sched"

subsection \<open>The invariant of the executions\<close>

text \<open>A process holds a ticket from the store of line 16 until the store of line 35.\<close>

fun holding :: "pc \<Rightarrow> bool" where
  "holding Idle = False"
| "holding (Scan vs) = False"
| "holding (Raised e) = False"
| "holding _ = True"

text \<open>The \<^verbatim>\<open>for\<close> loop of a process has gone past \<open>j\<close>.\<close>

fun passed :: "pc \<Rightarrow> nat \<Rightarrow> bool" where
  "passed (For k) j = (j < k)"
| "passed (Wait_choosing k) j = (j < k)"
| "passed (Wait_nonzero k) j = (j < k)"
| "passed (Less_j k) j = (j < k)"
| "passed (Less_pid k a) j = (j < k)"
| "passed (Equal_j k) j = (j < k)"
| "passed (Equal_pid k a) j = (j < k)"
| "passed Critical j = True"
| "passed _ j = False"

text \<open>A process has left the loop of line 24 for \<open>j\<close> and is in the loop of line 28 for \<open>j\<close>.\<close>

fun checked :: "pc \<Rightarrow> nat \<Rightarrow> bool" where
  "checked (Wait_nonzero k) j = (j = k)"
| "checked (Less_j k) j = (j = k)"
| "checked (Less_pid k a) j = (j = k)"
| "checked (Equal_j k) j = (j = k)"
| "checked (Equal_pid k a) j = (j = k)"
| "checked _ j = False"

text \<open>A process has found \<^verbatim>\<open>number[j] < number[pid]\<close> false and is at line 30 for \<open>j\<close>.\<close>

fun compared :: "pc \<Rightarrow> nat \<Rightarrow> bool" where
  "compared (Equal_j k) j = (j = k)"
| "compared (Equal_pid k a) j = (j = k)"
| "compared _ j = False"

text \<open>A process has read the value \<open>v\<close> of \<^verbatim>\<open>number[j]\<close> and not yet compared it.\<close>

fun fetched :: "pc \<Rightarrow> nat \<Rightarrow> int \<Rightarrow> bool" where
  "fetched (Less_pid k a) j v = (j = k \<and> v = a)"
| "fetched (Equal_pid k a) j v = (j = k \<and> v = a)"
| "fetched _ j v = False"

text \<open>If a process evaluating \<^verbatim>\<open>max\<close> has read entry \<open>i\<close>, it read at least \<open>v\<close> there.\<close>

fun scanned :: "pc \<Rightarrow> nat \<Rightarrow> int \<Rightarrow> bool" where
  "scanned (Scan vs) i v = (i < length vs \<longrightarrow> v \<le> vs ! i)"
| "scanned _ i v = True"

text \<open>Every index a control point holds is an index of the registry.\<close>

fun in_range :: "nat \<Rightarrow> pc \<Rightarrow> bool" where
  "in_range N (Scan vs) = (length vs \<le> N)"
| "in_range N (For k) = (k \<le> N)"
| "in_range N (Wait_choosing k) = (k < N)"
| "in_range N (Wait_nonzero k) = (k < N)"
| "in_range N (Less_j k) = (k < N)"
| "in_range N (Less_pid k a) = (k < N)"
| "in_range N (Equal_j k) = (k < N)"
| "in_range N (Equal_pid k a) = (k < N)"
| "in_range N _ = True"

definition num :: "system \<Rightarrow> nat \<Rightarrow> int" where
  "num c i = number (reg c) ! i"

text \<open>
  Process \<open>i\<close> goes before process \<open>j\<close>: \<open>j\<close> has not gone past \<open>i\<close> in its loop, and the
  ticket \<open>j\<close> holds or is about to draw comes after the ticket of \<open>i\<close> in the order of the
  pairs (ticket number, identity).
\<close>

definition before :: "system \<Rightarrow> nat \<Rightarrow> nat \<Rightarrow> bool" where
  "before c i j \<longleftrightarrow>
     \<not> passed (at c j) i \<and> scanned (at c j) i (num c i) \<and>
     (holding (at c j) \<longrightarrow> num c i < num c j \<or> (num c i = num c j \<and> i < j))"

definition inv_shape :: "nat \<Rightarrow> system \<Rightarrow> bool" where
  "inv_shape N c \<longleftrightarrow>
     n (reg c) = int N \<and> length (choosing (reg c)) = N \<and> length (number (reg c)) = N"

definition local_ok :: "nat \<Rightarrow> system \<Rightarrow> nat \<Rightarrow> bool" where
  "local_ok N c i \<longleftrightarrow>
     (\<forall>e. at c i \<noteq> Raised e)
     \<and> in_range N (at c i)
     \<and> (holding (at c i) \<longrightarrow> 0 < num c i)
     \<and> (\<not> holding (at c i) \<longrightarrow> num c i = 0)
     \<and> (\<forall>vs. at c i = Scan vs \<longrightarrow>
           choosing (reg c) ! i \<and> (\<forall>x \<in> set vs. 0 \<le> x))"

definition pair_ok :: "system \<Rightarrow> nat \<Rightarrow> nat \<Rightarrow> bool" where
  "pair_ok c i j \<longleftrightarrow>
     (passed (at c i) j \<longrightarrow> before c i j)
     \<and> (checked (at c i) j \<longrightarrow> scanned (at c j) i (num c i))
     \<and> (compared (at c i) j \<and> holding (at c j) \<longrightarrow> num c i \<le> num c j)
     \<and> (\<forall>a. fetched (at c i) j a \<and> holding (at c j) \<longrightarrow> num c j = a \<or> num c i < num c j)"

definition inv :: "nat \<Rightarrow> system \<Rightarrow> bool" where
  "inv N c \<longleftrightarrow>
     inv_shape N c \<and> (\<forall>i < N. local_ok N c i) \<and> (\<forall>i < N. \<forall>j < N. i \<noteq> j \<longrightarrow> pair_ok c i j)"

section \<open>Facts about the primitives\<close>

lemma py_index_valid:
  "0 \<le> i \<Longrightarrow> i < int (length xs) \<Longrightarrow> py_index xs i = Inr (nat i)"
  by (simp add: py_index_def)

lemma py_index_negative:
  "i < 0 \<Longrightarrow> - int (length xs) \<le> i \<Longrightarrow> py_index xs i = Inr (nat (int (length xs) + i))"
  by (simp add: py_index_def)

lemma py_index_outside:
  "int (length xs) \<le> i \<or> i < - int (length xs) \<Longrightarrow> py_index xs i = Inl IndexError"
  by (auto simp add: py_index_def Let_def)

lemma py_max_fold_ge: "m \<le> fold max ys (m::int)"
  by (induction ys arbitrary: m) (auto intro: order_trans [OF max.cobounded2])

lemma py_max_fold_Max: "fold max ys (x::int) = Max (set (x # ys))"
  by (rule Max.set_eq_fold [symmetric])

lemma py_max_nonempty: "xs \<noteq> [] \<Longrightarrow> py_max xs = Inr (Max (set xs))"
  by (cases xs) (simp_all add: py_max_def py_max_fold_Max del: set_simps)

lemma py_getitem_valid:
  "0 \<le> i \<Longrightarrow> i < int (length xs) \<Longrightarrow> py_getitem xs i = Inr (xs ! nat i)"
  by (simp add: py_getitem_def py_index_valid)

lemma py_setitem_valid:
  "0 \<le> i \<Longrightarrow> i < int (length xs) \<Longrightarrow> py_setitem xs i v = Inr (xs[nat i := v])"
  by (simp add: py_setitem_def py_index_valid)

lemma py_getitem_negative:
  "i < 0 \<Longrightarrow> - int (length xs) \<le> i \<Longrightarrow>
   py_getitem xs i = Inr (xs ! nat (int (length xs) + i))"
  by (simp add: py_getitem_def py_index_negative)

lemma py_setitem_negative:
  "i < 0 \<Longrightarrow> - int (length xs) \<le> i \<Longrightarrow>
   py_setitem xs i v = Inr (xs[nat (int (length xs) + i) := v])"
  by (simp add: py_setitem_def py_index_negative)

lemma py_getitem_outside:
  "int (length xs) \<le> i \<or> i < - int (length xs) \<Longrightarrow> py_getitem xs i = Inl IndexError"
  by (simp add: py_getitem_def py_index_outside)

lemma py_setitem_outside:
  "int (length xs) \<le> i \<or> i < - int (length xs) \<Longrightarrow> py_setitem xs i v = Inl IndexError"
  by (simp add: py_setitem_def py_index_outside)

lemma py_setitem_length: "py_setitem xs i v = Inr ys \<Longrightarrow> length ys = length xs"
  by (auto simp add: py_setitem_def split: sum.splits)

section \<open>Initialisation\<close>

text \<open>
  C6. For every positive \<open>k\<close>, the constructor called with \<open>k\<close> processes records \<open>k\<close> and
  builds a registry of exactly \<open>k\<close> slots, every choosing flag false and every ticket number 0.
\<close>

theorem init_registry:
  assumes "0 < k"
  shows "n (BakeryLock_init k) = k
    \<and> length (choosing (BakeryLock_init k)) = nat k
    \<and> length (number (BakeryLock_init k)) = nat k
    \<and> int (length (choosing (BakeryLock_init k))) = k
    \<and> int (length (number (BakeryLock_init k))) = k
    \<and> (\<forall>i < nat k. choosing (BakeryLock_init k) ! i = False \<and> number (BakeryLock_init k) ! i = 0)"
  using assms by (simp add: BakeryLock_init_def py_repeat_def)

theorem init_registry_witness:
  "(0::int) < 3 \<and> n (BakeryLock_init 3) = 3
    \<and> choosing (BakeryLock_init 3) = [False, False, False]
    \<and> number (BakeryLock_init 3) = [0, 0, 0]"
  using init_registry [of 3]
  by (simp add: BakeryLock_init_def py_repeat_def numeral_3_eq_3)


section \<open>Facts about the methods\<close>

lemma py_index_length_cong: "length xs = length ys \<Longrightarrow> py_index xs i = py_index ys i"
  by (simp add: py_index_def)

lemma py_index_less: "py_index xs i = Inr k \<Longrightarrow> k < length xs"
  by (auto simp add: py_index_def Let_def split: if_splits)

lemma registry_ok_valid_index:
  "registry_ok s \<Longrightarrow> valid_pid s pid \<Longrightarrow>
   py_index (number s) pid = Inr (nat pid) \<and> py_index (choosing s) pid = Inr (nat pid)"
  by (simp add: registry_ok_def valid_pid_def py_index_valid)

lemma unlock_slot:
  "py_index (number s) pid = Inr k \<Longrightarrow> unlock s pid = Inr (s\<lparr>number := (number s)[k := 0]\<rparr>)"
  by (simp add: unlock_def py_setitem_def)

lemma lock_draw_slot:
  assumes len: "length (choosing s) = length (number s)"
    and idx: "py_index (number s) pid = Inr k"
  shows "lock_draw s pid =
    Inr (s\<lparr>choosing := (choosing s)[k := False],
          number := (number s)[k := Max (set (number s)) + 1]\<rparr>)"
proof -
  have c: "py_index (choosing s) pid = Inr k"
    using idx py_index_length_cong [OF len, of pid] by simp
  have "number s \<noteq> []"
    using py_index_less [OF idx] by auto
  then have m: "py_max (number s) = Inr (Max (set (number s)))"
    by (rule py_max_nonempty)
  have c': "\<And>v. py_index ((choosing s)[k := v]) pid = Inr k"
    using c by (simp add: py_index_def)
  show ?thesis
    by (simp add: lock_draw_def py_setitem_def c c' m idx)
qed

lemma wait_cond_slot:
  assumes "py_index (number s) j = Inr a" and "py_index (number s) pid = Inr b"
  shows "wait_cond s pid j =
    Inr (number s ! a \<noteq> 0 \<and>
         (number s ! a < number s ! b \<or> (number s ! a = number s ! b \<and> j < pid)))"
  using assms by (simp add: wait_cond_def py_getitem_def)

lemma wait_choosing_Some:
  assumes "wait_choosing s j = Some y"
  shows "py_getitem (choosing s) j \<noteq> Inr True"
  by (rule wait_choosing.raw_induct [OF _ assms]) (auto split: sum.splits if_splits)

lemma wait_number_Some:
  assumes "wait_number s pid j = Some y"
  shows "wait_cond s pid j \<noteq> Inr True"
  by (rule wait_number.raw_induct [OF _ assms]) (auto split: sum.splits if_splits)

text \<open>
  On a registry that does not change, a busy-wait loop whose condition holds never exits and
  one whose condition fails exits at once.
\<close>

lemma wait_choosing_eq:
  "wait_choosing s j =
     (case py_getitem (choosing s) j of
        Inl e \<Rightarrow> Some (Inl (e, s))
      | Inr b \<Rightarrow> if b then None else Some (Inr s))"
proof (cases "py_getitem (choosing s) j = Inr True")
  case True
  then have "wait_choosing s j = None"
    using wait_choosing_Some [of s j] by (cases "wait_choosing s j") auto
  with True show ?thesis by simp
next
  case False
  then show ?thesis
    by (subst wait_choosing.simps) (auto split: sum.splits)
qed

lemma wait_number_eq:
  "wait_number s pid j =
     (case wait_cond s pid j of
        Inl e \<Rightarrow> Some (Inl (e, s))
      | Inr b \<Rightarrow> if b then None else Some (Inr s))"
proof (cases "wait_cond s pid j = Inr True")
  case True
  then have "wait_number s pid j = None"
    using wait_number_Some [of s pid j] by (cases "wait_number s pid j") auto
  with True show ?thesis by simp
next
  case False
  then show ?thesis
    by (subst wait_number.simps) (auto split: sum.splits)
qed

lemma wait_all_no_raise:
  assumes "py_index (number s) pid = Inr b"
    and "\<forall>j \<in> set js. (\<exists>a. py_index (number s) j = Inr a) \<and> (\<exists>a. py_index (choosing s) j = Inr a)"
  shows "wait_all s pid js = None \<or> wait_all s pid js = Some (Inr s)"
  using assms(2)
proof (induction js)
  case Nil
  show ?case by simp
next
  case (Cons j js)
  from Cons.prems obtain a c where a: "py_index (number s) j = Inr a"
    and c: "py_index (choosing s) j = Inr c" by auto
  have rest: "wait_all s pid js = None \<or> wait_all s pid js = Some (Inr s)"
    using Cons by simp
  show ?case
    using rest
    by (auto simp add: wait_choosing_eq wait_number_eq py_getitem_def c
        wait_cond_slot [OF a assms(1)])
qed

lemma wait_all_exits:
  assumes "\<forall>j \<in> set js. wait_choosing s j = Some (Inr s) \<and> wait_number s pid j = Some (Inr s)"
  shows "wait_all s pid js = Some (Inr s)"
  using assms by (induction js) simp_all

lemma py_range_valid: "j \<in> set (py_range k) \<longleftrightarrow> 0 \<le> j \<and> j < k"
  by (auto simp add: py_range_def image_iff intro: bexI [of _ "nat j"])

text \<open>The constructor establishes both registry invariants and the methods keep them.\<close>

lemma init_ok: "registry_ok (BakeryLock_init k) \<and> tickets_ok (BakeryLock_init k)"
  by (simp add: registry_ok_def tickets_ok_def BakeryLock_init_def py_repeat_def list_all_iff)

lemma unlock_ok:
  assumes "unlock s pid = Inr s'"
  shows "(registry_ok s \<longrightarrow> registry_ok s') \<and> (tickets_ok s \<longrightarrow> tickets_ok s')"
  using assms
  by (auto simp add: unlock_def py_setitem_def registry_ok_def tickets_ok_def list_all_iff
      split: sum.splits dest!: set_update_subset_insert [THEN subsetD])

lemma Max_tickets_nonneg:
  assumes "tickets_ok s" and "number s \<noteq> []"
  shows "0 \<le> Max (set (number s))"
proof -
  have "Max (set (number s)) \<in> set (number s)"
    using assms(2) by (intro Max_in) simp_all
  then show ?thesis
    using assms(1) by (simp add: tickets_ok_def list_all_iff)
qed

lemma lock_draw_ok:
  assumes "lock_draw s pid = Inr s'" and "registry_ok s"
  shows "registry_ok s' \<and> (tickets_ok s \<longrightarrow> tickets_ok s')"
proof -
  have len: "length (choosing s) = length (number s)"
    using assms(2) by (simp add: registry_ok_def)
  have "\<exists>k. py_index (choosing s) pid = Inr k"
    using assms(1) by (cases "py_index (choosing s) pid") (simp_all add: lock_draw_def py_setitem_def)
  then obtain k where k: "py_index (number s) pid = Inr k"
    using py_index_length_cong [OF len, of pid] by auto
  have s': "s' = s\<lparr>choosing := (choosing s)[k := False],
          number := (number s)[k := Max (set (number s)) + 1]\<rparr>"
    using lock_draw_slot [OF len k] assms(1) by simp
  have ne: "number s \<noteq> []"
    using py_index_less [OF k] by auto
  show ?thesis
    using assms(2) Max_tickets_nonneg [OF _ ne]
    by (auto simp add: s' registry_ok_def tickets_ok_def list_all_iff
        dest!: set_update_subset_insert [THEN subsetD])
qed


section \<open>Unlock\<close>

text \<open>
  C4. For every registry and every valid pid, \<^verbatim>\<open>unlock(pid)\<close> returns without raising
  and without waiting, sets \<open>number[pid]\<close> to 0, and changes nothing else: every other
  ticket number, every choosing flag and \<open>n\<close> keep their values.
\<close>

theorem unlock_effect_frame:
  assumes "registry_ok s" and "valid_pid s pid"
  shows "unlock s pid = Inr (s\<lparr>number := (number s)[nat pid := 0]\<rparr>)
    \<and> (\<exists>s'. unlock s pid = Inr s'
          \<and> number s' ! nat pid = 0
          \<and> length (number s') = length (number s)
          \<and> (\<forall>j. j \<noteq> nat pid \<longrightarrow> number s' ! j = number s ! j)
          \<and> choosing s' = choosing s
          \<and> n s' = n s)"
proof -
  have idx: "py_index (number s) pid = Inr (nat pid)"
    using registry_ok_valid_index [OF assms] by simp
  have "nat pid < length (number s)"
    using py_index_less [OF idx] .
  then show ?thesis
    by (simp add: unlock_slot [OF idx])
qed

theorem unlock_effect_frame_witness:
  "registry_ok \<lparr>n = 3, choosing = [False, True, False], number = [4, 2, 0]\<rparr>
   \<and> valid_pid \<lparr>n = 3, choosing = [False, True, False], number = [4, 2, 0]\<rparr> 1
   \<and> unlock \<lparr>n = 3, choosing = [False, True, False], number = [4, 2, 0]\<rparr> 1
       = Inr \<lparr>n = 3, choosing = [False, True, False], number = [4, 0, 0]\<rparr>"
  using unlock_effect_frame [of "\<lparr>n = 3, choosing = [False, True, False], number = [4, 2, 0]\<rparr>" 1]
  by (simp add: registry_ok_def valid_pid_def)

text \<open>
  C9. For every registry and every valid pid: when \<open>number[pid]\<close> is already 0,
  \<^verbatim>\<open>unlock(pid)\<close> leaves the whole registry as it was; and a second \<^verbatim>\<open>unlock(pid)\<close>
  after a first one changes nothing more.
\<close>

theorem unlock_idempotent:
  assumes "registry_ok s" and "valid_pid s pid"
  shows "(number s ! nat pid = 0 \<longrightarrow> unlock s pid = Inr s)
    \<and> (\<exists>s'. unlock s pid = Inr s' \<and> unlock s' pid = Inr s')"
proof -
  have idx: "py_index (number s) pid = Inr (nat pid)"
    using registry_ok_valid_index [OF assms] by simp
  have idx': "py_index (number (s\<lparr>number := (number s)[nat pid := 0]\<rparr>)) pid = Inr (nat pid)"
    using idx by (simp add: py_index_def)
  have "number s ! nat pid = 0 \<longrightarrow> unlock s pid = Inr s"
  proof
    assume "number s ! nat pid = 0"
    then have "(number s)[nat pid := 0] = number s"
      using list_update_id [of "number s" "nat pid"] by simp
    then show "unlock s pid = Inr s"
      by (simp add: unlock_slot [OF idx])
  qed
  moreover have "unlock (s\<lparr>number := (number s)[nat pid := 0]\<rparr>) pid
      = Inr (s\<lparr>number := (number s)[nat pid := 0]\<rparr>)"
    by (simp add: unlock_slot [OF idx'])
  ultimately show ?thesis
    by (simp add: unlock_slot [OF idx])
qed

theorem unlock_idempotent_witness:
  "registry_ok \<lparr>n = 3, choosing = [False, True, False], number = [4, 0, 7]\<rparr>
   \<and> valid_pid \<lparr>n = 3, choosing = [False, True, False], number = [4, 0, 7]\<rparr> 1
   \<and> number \<lparr>n = 3, choosing = [False, True, False], number = [4, 0, 7]\<rparr> ! nat 1 = 0
   \<and> unlock \<lparr>n = 3, choosing = [False, True, False], number = [4, 0, 7]\<rparr> 1
       = Inr \<lparr>n = 3, choosing = [False, True, False], number = [4, 0, 7]\<rparr>
   \<and> valid_pid \<lparr>n = 3, choosing = [False, True, False], number = [4, 0, 7]\<rparr> 2
   \<and> unlock \<lparr>n = 3, choosing = [False, True, False], number = [4, 0, 7]\<rparr> 2
       = Inr \<lparr>n = 3, choosing = [False, True, False], number = [4, 0, 0]\<rparr>
   \<and> unlock \<lparr>n = 3, choosing = [False, True, False], number = [4, 0, 0]\<rparr> 2
       = Inr \<lparr>n = 3, choosing = [False, True, False], number = [4, 0, 0]\<rparr>"
  using unlock_idempotent [of "\<lparr>n = 3, choosing = [False, True, False], number = [4, 0, 7]\<rparr>" 1]
    unlock_idempotent [of "\<lparr>n = 3, choosing = [False, True, False], number = [4, 0, 7]\<rparr>" 2]
  by (simp add: registry_ok_def valid_pid_def unlock_def py_setitem_def py_index_def)


section \<open>Drawing a ticket\<close>

text \<open>
  C2. On every registry with non-negative ticket numbers and for every valid pid, the
  first three statements of \<^verbatim>\<open>lock(pid)\<close> return without raising, set \<open>number[pid]\<close> to
  exactly 1 + the maximum of all entries of \<open>number\<close> (the caller's own included), which
  is positive, and leave \<open>choosing[pid]\<close> false; the wait loop starts from that state,
  and \<^verbatim>\<open>lock\<close> either spins or returns with that state.
\<close>

theorem lock_draw_ticket:
  assumes "registry_ok s" and "tickets_ok s" and "valid_pid s pid"
  shows "\<exists>s'. lock_draw s pid = Inr s'
    \<and> py_max (number s) = Inr (Max (set (number s)))
    \<and> number s' = (number s)[nat pid := Max (set (number s)) + 1]
    \<and> number s' ! nat pid = Max (set (number s)) + 1
    \<and> 0 < number s' ! nat pid
    \<and> choosing s' = (choosing s)[nat pid := False]
    \<and> choosing s' ! nat pid = False
    \<and> n s' = n s
    \<and> lock s pid = wait_all s' pid (py_range (n s'))
    \<and> (lock s pid = None \<or> lock s pid = Some (Inr s'))"
proof -
  let ?s' = "s\<lparr>choosing := (choosing s)[nat pid := False],
          number := (number s)[nat pid := Max (set (number s)) + 1]\<rparr>"
  have len: "length (choosing s) = length (number s)"
    using assms(1) by (simp add: registry_ok_def)
  have idx: "py_index (number s) pid = Inr (nat pid)"
    and idc: "py_index (choosing s) pid = Inr (nat pid)"
    using registry_ok_valid_index [OF assms(1,3)] by simp_all
  have lt: "nat pid < length (number s)"
    using py_index_less [OF idx] .
  then have ne: "number s \<noteq> []" by auto
  have draw: "lock_draw s pid = Inr ?s'"
    by (rule lock_draw_slot [OF len idx])
  have pos: "0 \<le> Max (set (number s))"
    by (rule Max_tickets_nonneg [OF assms(2) ne])
  have idx': "py_index (number ?s') pid = Inr (nat pid)"
    using idx by (simp add: py_index_def)
  have all: "\<forall>j \<in> set (py_range (n ?s')).
      (\<exists>a. py_index (number ?s') j = Inr a) \<and> (\<exists>a. py_index (choosing ?s') j = Inr a)"
    using assms(1) by (auto simp add: py_range_valid registry_ok_def py_index_def)
  have run: "lock s pid = wait_all ?s' pid (py_range (n ?s'))"
    by (simp add: lock_def draw)
  have "lock s pid = None \<or> lock s pid = Some (Inr ?s')"
    unfolding run by (rule wait_all_no_raise [OF idx' all])
  then show ?thesis
    using lt len pos run by (intro exI [of _ ?s']) (simp add: draw py_max_nonempty [OF ne])
qed

theorem lock_draw_ticket_witness:
  "registry_ok \<lparr>n = 3, choosing = [False, False, False], number = [0, 2, 0]\<rparr>
   \<and> tickets_ok \<lparr>n = 3, choosing = [False, False, False], number = [0, 2, 0]\<rparr>
   \<and> valid_pid \<lparr>n = 3, choosing = [False, False, False], number = [0, 2, 0]\<rparr> 2
   \<and> lock_draw \<lparr>n = 3, choosing = [False, False, False], number = [0, 2, 0]\<rparr> 2
       = Inr \<lparr>n = 3, choosing = [False, False, False], number = [0, 2, 3]\<rparr>
   \<and> py_max [0, 2, 0] = Inr 2"
  using lock_draw_ticket [of "\<lparr>n = 3, choosing = [False, False, False], number = [0, 2, 0]\<rparr>" 2]
  by (simp add: registry_ok_def tickets_ok_def valid_pid_def lock_draw_def py_setitem_def
      py_index_def py_max_def)

section \<open>Waiting for priority\<close>

text \<open>
  C3. For all valid identities \<open>pid\<close> and \<open>j\<close>, the condition of the second wait loop of
  \<^verbatim>\<open>lock(pid)\<close> is \<open>number[j] \<noteq> 0 \<and> (number[j] < number[pid] \<or> (number[j] = number[pid] \<and> j < pid))\<close>,
  and the loop blocks on \<open>j\<close> exactly when it holds. When \<open>pid\<close> and \<open>j\<close> hold the same
  non-zero ticket and \<open>j < pid\<close>, the higher identity \<open>pid\<close> is blocked on \<open>j\<close> and the lower
  identity \<open>j\<close> is not blocked on \<open>pid\<close>.
\<close>

theorem wait_predicate_tiebreak:
  assumes "registry_ok s" and "valid_pid s pid" and "valid_pid s j"
  shows "wait_cond s pid j =
      Inr (number s ! nat j \<noteq> 0 \<and>
           (number s ! nat j < number s ! nat pid \<or>
            (number s ! nat j = number s ! nat pid \<and> j < pid)))
    \<and> (wait_number s pid j = None \<longleftrightarrow>
         number s ! nat j \<noteq> 0 \<and>
           (number s ! nat j < number s ! nat pid \<or>
            (number s ! nat j = number s ! nat pid \<and> j < pid)))
    \<and> (wait_number s pid j = Some (Inr s) \<longleftrightarrow>
         \<not> (number s ! nat j \<noteq> 0 \<and>
           (number s ! nat j < number s ! nat pid \<or>
            (number s ! nat j = number s ! nat pid \<and> j < pid))))
    \<and> (number s ! nat j = number s ! nat pid \<and> number s ! nat pid \<noteq> 0 \<and> j < pid \<longrightarrow>
         wait_number s pid j = None \<and> wait_number s j pid = Some (Inr s))"
proof -
  have p: "py_index (number s) pid = Inr (nat pid)"
    using registry_ok_valid_index [OF assms(1,2)] by simp
  have j: "py_index (number s) j = Inr (nat j)"
    using registry_ok_valid_index [OF assms(1,3)] by simp
  show ?thesis
    by (auto simp add: wait_number_eq wait_cond_slot [OF j p] wait_cond_slot [OF p j])
qed

theorem wait_predicate_tiebreak_witness:
  "registry_ok \<lparr>n = 3, choosing = [False, False, False], number = [5, 5, 0]\<rparr>
   \<and> valid_pid \<lparr>n = 3, choosing = [False, False, False], number = [5, 5, 0]\<rparr> 1
   \<and> valid_pid \<lparr>n = 3, choosing = [False, False, False], number = [5, 5, 0]\<rparr> 0
   \<and> wait_cond \<lparr>n = 3, choosing = [False, False, False], number = [5, 5, 0]\<rparr> 1 0 = Inr True
   \<and> wait_number \<lparr>n = 3, choosing = [False, False, False], number = [5, 5, 0]\<rparr> 1 0 = None
   \<and> wait_number \<lparr>n = 3, choosing = [False, False, False], number = [5, 5, 0]\<rparr> 0 1
       = Some (Inr \<lparr>n = 3, choosing = [False, False, False], number = [5, 5, 0]\<rparr>)"
  using wait_predicate_tiebreak [of "\<lparr>n = 3, choosing = [False, False, False], number = [5, 5, 0]\<rparr>" 1 0]
  by (simp add: registry_ok_def valid_pid_def)

text \<open>
  C8. The wait loop of \<^verbatim>\<open>lock(pid)\<close> runs over every index of \<open>range(n)\<close>, \<open>pid\<close> itself
  included; after the draw, \<open>choosing[pid]\<close> is false and the priority condition of \<open>pid\<close>
  against itself is false, so both busy-wait loops for \<open>j = pid\<close> exit at once.
\<close>

theorem self_wait_harmless:
  assumes "registry_ok s" and "valid_pid s pid"
  shows "\<exists>s'. lock_draw s pid = Inr s'
    \<and> pid \<in> set (py_range (n s'))
    \<and> py_getitem (choosing s') pid = Inr False
    \<and> wait_choosing s' pid = Some (Inr s')
    \<and> wait_cond s' pid pid = Inr False
    \<and> wait_number s' pid pid = Some (Inr s')"
proof -
  let ?s' = "s\<lparr>choosing := (choosing s)[nat pid := False],
          number := (number s)[nat pid := Max (set (number s)) + 1]\<rparr>"
  have len: "length (choosing s) = length (number s)"
    using assms(1) by (simp add: registry_ok_def)
  have idx: "py_index (number s) pid = Inr (nat pid)"
    and idc: "py_index (choosing s) pid = Inr (nat pid)"
    using registry_ok_valid_index [OF assms] by simp_all
  have lt: "nat pid < length (choosing s)"
    using py_index_less [OF idc] .
  have draw: "lock_draw s pid = Inr ?s'"
    by (rule lock_draw_slot [OF len idx])
  have idx': "py_index (number ?s') pid = Inr (nat pid)"
    using idx by (simp add: py_index_def)
  have idc': "py_index ((choosing s)[nat pid := False]) pid = Inr (nat pid)"
    using idc by (simp add: py_index_def)
  have ch: "py_getitem ((choosing s)[nat pid := False]) pid = Inr False"
    using lt by (simp add: py_getitem_def idc')
  have cond: "wait_cond ?s' pid pid = Inr False"
    by (simp add: wait_cond_slot [OF idx' idx'])
  have "pid \<in> set (py_range (n ?s'))"
    using assms(2) by (simp add: py_range_valid valid_pid_def)
  then show ?thesis
    by (intro exI [of _ ?s']) (simp add: draw ch cond wait_choosing_eq wait_number_eq)
qed

theorem self_wait_harmless_witness:
  "registry_ok \<lparr>n = 2, choosing = [False, False], number = [0, 7]\<rparr>
   \<and> valid_pid \<lparr>n = 2, choosing = [False, False], number = [0, 7]\<rparr> 1
   \<and> lock_draw \<lparr>n = 2, choosing = [False, False], number = [0, 7]\<rparr> 1
       = Inr \<lparr>n = 2, choosing = [False, False], number = [0, 8]\<rparr>
   \<and> wait_choosing \<lparr>n = 2, choosing = [False, False], number = [0, 8]\<rparr> 1
       = Some (Inr \<lparr>n = 2, choosing = [False, False], number = [0, 8]\<rparr>)
   \<and> wait_number \<lparr>n = 2, choosing = [False, False], number = [0, 8]\<rparr> 1 1
       = Some (Inr \<lparr>n = 2, choosing = [False, False], number = [0, 8]\<rparr>)"
  using self_wait_harmless [of "\<lparr>n = 2, choosing = [False, False], number = [0, 7]\<rparr>" 1]
  by (simp add: registry_ok_def valid_pid_def lock_draw_def py_setitem_def
      py_index_def py_max_def)


text \<open>
  C5. When every other process \<open>j\<close> has \<open>choosing[j]\<close> false and \<open>number[j] = 0\<close> while
  \<^verbatim>\<open>lock(pid)\<close> runs, both busy-wait loops exit for every \<open>j\<close> of \<open>range(n)\<close>, \<open>pid\<close>
  included, and \<^verbatim>\<open>lock(pid)\<close> returns.
\<close>

theorem lock_terminates_cooperative:
  assumes "registry_ok s" and "valid_pid s pid"
    and "\<forall>j. valid_pid s j \<and> j \<noteq> pid \<longrightarrow> choosing s ! nat j = False \<and> number s ! nat j = 0"
  shows "\<exists>s'. lock_draw s pid = Inr s'
    \<and> (\<forall>j \<in> set (py_range (n s')).
          wait_choosing s' j = Some (Inr s') \<and> wait_number s' pid j = Some (Inr s'))
    \<and> lock s pid = Some (Inr s')"
proof -
  let ?s' = "s\<lparr>choosing := (choosing s)[nat pid := False],
          number := (number s)[nat pid := Max (set (number s)) + 1]\<rparr>"
  have len: "length (choosing s) = length (number s)"
    using assms(1) by (simp add: registry_ok_def)
  have idx: "py_index (number s) pid = Inr (nat pid)"
    using registry_ok_valid_index [OF assms(1,2)] by simp
  have draw: "lock_draw s pid = Inr ?s'"
    by (rule lock_draw_slot [OF len idx])
  have ok': "registry_ok ?s'"
    using assms(1) by (simp add: registry_ok_def)
  have p': "py_index (number ?s') pid = Inr (nat pid)"
    using idx by (simp add: py_index_def)
  have each: "wait_choosing ?s' j = Some (Inr ?s') \<and> wait_number ?s' pid j = Some (Inr ?s')"
    if j: "j \<in> set (py_range (n ?s'))" for j
  proof -
    have vj: "valid_pid s j"
      using j by (simp add: py_range_valid valid_pid_def)
    then have vj': "valid_pid ?s' j"
      by (simp add: valid_pid_def)
    have lj: "nat j < length (choosing s)" "nat j < length (number s)"
      using vj assms(1) by (simp_all add: valid_pid_def registry_ok_def)
    have jn: "py_index (number ?s') j = Inr (nat j)"
      and jc: "py_index (choosing ?s') j = Inr (nat j)"
      using registry_ok_valid_index [OF ok' vj'] by simp_all
    have flag: "choosing ?s' ! nat j = False"
    proof (cases "j = pid")
      case True
      then show ?thesis using lj by simp
    next
      case False
      then have "nat j \<noteq> nat pid"
        using vj assms(2) by (auto simp add: valid_pid_def)
      then show ?thesis
        using assms(3) vj False by simp
    qed
    have c: "wait_choosing ?s' j = Some (Inr ?s')"
      using flag jc by (simp add: wait_choosing_eq py_getitem_def)
    have "wait_cond ?s' pid j = Inr False"
    proof (cases "j = pid")
      case True
      then show ?thesis
        by (simp add: wait_cond_slot [OF p' p'])
    next
      case False
      then have "nat j \<noteq> nat pid"
        using vj assms(2) by (auto simp add: valid_pid_def)
      then have "number ?s' ! nat j = 0"
        using assms(3) vj False by simp
      then show ?thesis
        by (simp add: wait_cond_slot [OF jn p'])
    qed
    then have "wait_number ?s' pid j = Some (Inr ?s')"
      by (simp add: wait_number_eq)
    with c show ?thesis by simp
  qed
  then have all: "\<forall>j \<in> set (py_range (n ?s')).
      wait_choosing ?s' j = Some (Inr ?s') \<and> wait_number ?s' pid j = Some (Inr ?s')"
    by blast
  have "lock s pid = wait_all ?s' pid (py_range (n ?s'))"
    by (simp add: lock_def draw)
  then have "lock s pid = Some (Inr ?s')"
    using wait_all_exits [OF all] by simp
  with draw all show ?thesis
    by blast
qed

theorem lock_terminates_cooperative_witness:
  "registry_ok \<lparr>n = 3, choosing = [False, True, False], number = [0, 4, 0]\<rparr>
   \<and> valid_pid \<lparr>n = 3, choosing = [False, True, False], number = [0, 4, 0]\<rparr> 1
   \<and> lock \<lparr>n = 3, choosing = [False, True, False], number = [0, 4, 0]\<rparr> 1
       = Some (Inr \<lparr>n = 3, choosing = [False, False, False], number = [0, 5, 0]\<rparr>)"
proof -
  let ?s = "\<lparr>n = 3, choosing = [False, True, False], number = [0, 4, 0]\<rparr>"
  have ok: "registry_ok ?s" and v: "valid_pid ?s 1"
    by (simp_all add: registry_ok_def valid_pid_def)
  have others: "\<forall>j. valid_pid ?s j \<and> j \<noteq> 1 \<longrightarrow> choosing ?s ! nat j = False \<and> number ?s ! nat j = 0"
  proof (intro allI impI)
    fix j :: int
    assume "valid_pid ?s j \<and> j \<noteq> 1"
    then have "j = 0 \<or> j = 2"
      by (auto simp add: valid_pid_def)
    then show "choosing ?s ! nat j = False \<and> number ?s ! nat j = 0"
      by auto
  qed
  have draw: "lock_draw ?s 1 = Inr \<lparr>n = 3, choosing = [False, False, False], number = [0, 5, 0]\<rparr>"
    by (simp add: lock_draw_def py_setitem_def py_index_def py_max_def)
  show ?thesis
    using lock_terminates_cooperative [OF ok v others] ok v by (simp add: draw)
qed

section \<open>Process identities outside the registry\<close>

text \<open>
  C7, as the code has it. For every lock whose registry has \<open>n\<close> slots, \<^verbatim>\<open>lock(pid)\<close> and
  \<^verbatim>\<open>unlock(pid)\<close> with \<open>pid \<ge> n\<close> or \<open>pid < -n\<close> raise \<^verbatim>\<open>IndexError\<close> at their first
  statement and leave the registry as it was.
\<close>

theorem invalid_pid_raises:
  assumes "registry_ok s" and "n s \<le> pid \<or> pid < - n s"
  shows "lock s pid = Some (Inl (IndexError, s)) \<and> unlock s pid = Inl (IndexError, s)"
proof -
  have "int (length (number s)) \<le> pid \<or> pid < - int (length (number s))"
    using assms by (auto simp add: registry_ok_def)
  moreover have "int (length (choosing s)) \<le> pid \<or> pid < - int (length (choosing s))"
    using assms by (auto simp add: registry_ok_def)
  ultimately show ?thesis
    by (simp add: lock_def lock_draw_def unlock_def py_setitem_outside)
qed

theorem invalid_pid_raises_witness:
  "registry_ok (BakeryLock_init 3)
   \<and> lock (BakeryLock_init 3) 3 = Some (Inl (IndexError, BakeryLock_init 3))
   \<and> unlock (BakeryLock_init 3) 3 = Inl (IndexError, BakeryLock_init 3)
   \<and> lock (BakeryLock_init 3) (- 4) = Some (Inl (IndexError, BakeryLock_init 3))
   \<and> unlock (BakeryLock_init 3) (- 4) = Inl (IndexError, BakeryLock_init 3)"
  using invalid_pid_raises [of "BakeryLock_init 3" 3] invalid_pid_raises [of "BakeryLock_init 3" "- 4"]
  by (simp add: registry_ok_def BakeryLock_init_def py_repeat_def)

text \<open>
  C7 as stated fails: \<open>-1\<close> is outside \<open>[0, 3)\<close>, yet on a lock of size 3 where process 2
  holds ticket 1, \<^verbatim>\<open>unlock(-1)\<close> returns and resets the ticket of process 2, and
  \<^verbatim>\<open>lock(-1)\<close> returns after overwriting it.
\<close>

theorem invalid_pid_counterexample:
  "\<not> valid_pid \<lparr>n = 3, choosing = [False, False, False], number = [0, 0, 1]\<rparr> (- 1)
   \<and> registry_ok \<lparr>n = 3, choosing = [False, False, False], number = [0, 0, 1]\<rparr>
   \<and> unlock \<lparr>n = 3, choosing = [False, False, False], number = [0, 0, 1]\<rparr> (- 1)
       = Inr \<lparr>n = 3, choosing = [False, False, False], number = [0, 0, 0]\<rparr>
   \<and> lock \<lparr>n = 3, choosing = [False, False, False], number = [0, 0, 1]\<rparr> (- 1)
       = Some (Inr \<lparr>n = 3, choosing = [False, False, False], number = [0, 0, 2]\<rparr>)"
  by (simp add: valid_pid_def registry_ok_def unlock_def lock_def lock_draw_def py_setitem_def
      py_index_def py_max_def py_range_def upt_rec wait_choosing_eq wait_number_eq
      wait_cond_def py_getitem_def)

text \<open>
  C10. For every lock with \<open>n \<ge> 1\<close> slots and every \<open>pid\<close> with \<open>-n \<le> pid < 0\<close>,
  \<^verbatim>\<open>unlock(pid)\<close> and \<^verbatim>\<open>lock(pid)\<close> do not raise: they read and write the slot at index
  \<open>n + pid\<close>, exactly as a caller with identity \<open>n + pid\<close> does.
\<close>

theorem negative_pid_aliases:
  assumes "registry_ok s" and "1 \<le> n s" and "- n s \<le> pid" and "pid < 0"
  shows "unlock s pid = Inr (s\<lparr>number := (number s)[nat (n s + pid) := 0]\<rparr>)
    \<and> unlock s pid = unlock s (n s + pid)
    \<and> lock_draw s pid =
        Inr (s\<lparr>choosing := (choosing s)[nat (n s + pid) := False],
              number := (number s)[nat (n s + pid) := Max (set (number s)) + 1]\<rparr>)
    \<and> lock_draw s pid = lock_draw s (n s + pid)
    \<and> py_getitem (number s) pid = Inr (number s ! nat (n s + pid))
    \<and> py_getitem (choosing s) pid = Inr (choosing s ! nat (n s + pid))
    \<and> (lock s pid = None \<or> (\<exists>s'. lock s pid = Some (Inr s')))"
proof -
  let ?k = "nat (n s + pid)"
  let ?s' = "s\<lparr>choosing := (choosing s)[?k := False],
          number := (number s)[?k := Max (set (number s)) + 1]\<rparr>"
  have len: "length (choosing s) = length (number s)"
    using assms(1) by (simp add: registry_ok_def)
  have ln: "int (length (number s)) = n s" and lc: "int (length (choosing s)) = n s"
    using assms(1,2) by (simp_all add: registry_ok_def)
  have neg: "py_index (number s) pid = Inr ?k"
    using py_index_negative [of pid "number s"] assms(3,4) ln by simp
  have negc: "py_index (choosing s) pid = Inr ?k"
    using py_index_negative [of pid "choosing s"] assms(3,4) lc by simp
  have pos: "py_index (number s) (n s + pid) = Inr ?k"
    using py_index_valid [of "n s + pid" "number s"] assms(3,4) ln by simp
  have draw: "lock_draw s pid = Inr ?s'"
    by (rule lock_draw_slot [OF len neg])
  have idx': "py_index (number ?s') pid = Inr ?k"
    using neg by (simp add: py_index_def)
  have all: "\<forall>j \<in> set (py_range (n ?s')).
      (\<exists>a. py_index (number ?s') j = Inr a) \<and> (\<exists>a. py_index (choosing ?s') j = Inr a)"
    using assms(1) by (auto simp add: py_range_valid registry_ok_def py_index_def)
  have run: "lock s pid = wait_all ?s' pid (py_range (n ?s'))"
    by (simp add: lock_def draw)
  have "lock s pid = None \<or> lock s pid = Some (Inr ?s')"
    unfolding run by (rule wait_all_no_raise [OF idx' all])
  then have "lock s pid = None \<or> (\<exists>s'. lock s pid = Some (Inr s'))"
    by blast
  then show ?thesis
    by (simp add: unlock_slot [OF neg] unlock_slot [OF pos] draw lock_draw_slot [OF len pos]
        py_getitem_def neg negc)
qed

theorem negative_pid_aliases_witness:
  "registry_ok \<lparr>n = 3, choosing = [False, False, False], number = [0, 0, 1]\<rparr>
   \<and> unlock \<lparr>n = 3, choosing = [False, False, False], number = [0, 0, 1]\<rparr> (- 1)
       = Inr \<lparr>n = 3, choosing = [False, False, False], number = [0, 0, 0]\<rparr>
   \<and> unlock \<lparr>n = 3, choosing = [False, False, False], number = [0, 0, 1]\<rparr> (- 1)
       = unlock \<lparr>n = 3, choosing = [False, False, False], number = [0, 0, 1]\<rparr> 2
   \<and> lock_draw \<lparr>n = 3, choosing = [False, False, False], number = [0, 0, 1]\<rparr> (- 1)
       = Inr \<lparr>n = 3, choosing = [False, False, False], number = [0, 0, 2]\<rparr>
   \<and> py_getitem [0, 0, 1 :: int] (- 1) = Inr 1"
  using negative_pid_aliases [of "\<lparr>n = 3, choosing = [False, False, False], number = [0, 0, 1]\<rparr>" "- 1"]
  by (simp add: registry_ok_def unlock_def py_setitem_def py_index_def py_getitem_def)

section \<open>A process running alone follows the methods\<close>

text \<open>
  The steps of one process, taken without interference, compute what the methods compute:
  \<open>N + 3\<close> steps from \<open>Idle\<close> make the draw of \<^verbatim>\<open>lock\<close>, one pass through a busy-wait
  loop goes on or stays according to the loop of the method, and the step from \<open>Critical\<close>
  is \<^verbatim>\<open>unlock\<close>.
\<close>

lemma run_append: "run c (xs @ ys) = run (run c xs) ys"
  by (simp add: run_def)

lemma run_Cons: "run c (p # ps) = run (proc_step c p) ps"
  by (simp add: run_def)

lemma run_Nil: "run c [] = c"
  by (simp add: run_def)

lemma goto_same: "at c p = x \<Longrightarrow> goto c p x = c"
  by (auto simp add: goto_def)

lemma goto_goto: "goto (goto c p x) p y = goto c p y"
  by (simp add: goto_def)

lemma scan_steps:
  assumes "at c p = Scan (take k (number (reg c)))" and "k \<le> length (number (reg c))"
    and "m = length (number (reg c)) - k"
  shows "run c (replicate m p) = goto c p (Scan (number (reg c)))"
  using assms
proof (induction m arbitrary: c k)
  case 0
  then have "take k (number (reg c)) = number (reg c)" by simp
  then show ?case using 0 by (simp add: run_Nil goto_same)
next
  case (Suc m)
  then have lt: "k < length (number (reg c))" by simp
  let ?c = "goto c p (Scan (take (Suc k) (number (reg c))))"
  have step: "proc_step c p = ?c"
    using Suc.prems(1) lt by (simp add: proc_step_def Let_def take_Suc_conv_app_nth)
  have "run ?c (replicate m p) = goto ?c p (Scan (number (reg ?c)))"
    using Suc.prems lt by (intro Suc.IH [of _ "Suc k"]) (simp_all add: goto_def)
  then show ?case
    by (simp add: run_Cons step goto_goto) (simp add: goto_def)
qed

lemma scan_alone:
  assumes "at c p = Scan []"
  shows "run c (replicate (length (number (reg c))) p) = goto c p (Scan (number (reg c)))"
  by (rule scan_steps [of c p 0]) (simp_all add: assms)

lemma draw_alone:
  assumes "registry_ok (reg c)" and "p < length (number (reg c))" and "at c p = Idle"
  shows "lock_draw (reg c) (int p) = Inr (reg (run c (replicate (length (number (reg c)) + 3) p)))
    \<and> at (run c (replicate (length (number (reg c)) + 3) p)) p = For 0"
proof -
  let ?r = "reg c" and ?N = "length (number (reg c))"
  let ?c1 = "goto (c\<lparr>reg := ?r\<lparr>choosing := (choosing ?r)[p := True]\<rparr>\<rparr>) p (Scan [])"
  let ?c2 = "goto ?c1 p (Scan (number ?r))"
  have len: "length (choosing ?r) = length (number ?r)"
    using assms(1) by (simp add: registry_ok_def)
  have idx: "py_index (number ?r) (int p) = Inr p"
    using assms(2) by (simp add: py_index_def)
  have ne: "number ?r \<noteq> []" using assms(2) by auto
  have s1: "proc_step c p = ?c1"
    using assms(3) by (simp add: proc_step_def Let_def)
  have "at ?c1 p = Scan []" and r1: "number (reg ?c1) = number ?r"
    by (simp_all add: goto_def)
  then have s2: "run ?c1 (replicate ?N p) = ?c2"
    using scan_alone [of ?c1 p] by (simp only: r1)
  have s3: "run ?c2 [p, p]
      = goto (c\<lparr>reg := ?r\<lparr>choosing := (choosing ?r)[p := False],
            number := (number ?r)[p := Max (set (number ?r)) + 1]\<rparr>\<rparr>) p (For 0)"
    by (simp add: run_Cons run_Nil proc_step_def Let_def goto_def py_max_nonempty [OF ne])
  have "?N + 3 = Suc (?N + 2)" by simp
  then have "replicate (?N + 3) p = p # replicate (?N + 2) p"
    by (simp only: replicate_Suc)
  also have "replicate (?N + 2) p = replicate ?N p @ [p, p]"
    by (simp only: replicate_add) (simp add: numeral_2_eq_2)
  finally have "replicate (?N + 3) p = p # replicate ?N p @ [p, p]" .
  then have "run c (replicate (?N + 3) p) = run ?c2 [p, p]"
    by (simp only: run_Cons run_append s1 s2)
  also note s3
  finally show ?thesis
    by (simp add: lock_draw_slot [OF len idx] goto_def)
qed

lemma unlock_step:
  assumes "p < length (number (reg c))" and "at c p = Critical"
  shows "unlock (reg c) (int p) = Inr (reg (proc_step c p)) \<and> at (proc_step c p) p = Idle"
  using assms by (simp add: unlock_def py_setitem_def py_index_def proc_step_def Let_def goto_def)


lemma wait_choosing_step:
  assumes "j < length (choosing (reg c))" and "at c p = Wait_choosing j"
  shows "proc_step c p =
    (if wait_choosing (reg c) (int j) = None then c else goto c p (Wait_nonzero j))"
  using assms by (simp add: proc_step_def Let_def wait_choosing_eq py_getitem_def py_index_def)

lemma wait_number_steps:
  assumes "j < length (number (reg c))" and "p < length (number (reg c))"
    and "at c p = Wait_nonzero j"
  shows "run c (replicate (if num c j = 0 then 1 else if num c j < num c p then 3 else 5) p) =
    (if wait_number (reg c) (int p) (int j) = None then c else goto c p (For (Suc j)))"
proof -
  have j: "py_index (number (reg c)) (int j) = Inr j"
    and p: "py_index (number (reg c)) (int p) = Inr p"
    using assms(1,2) by (simp_all add: py_index_def)
  have again: "goto c p (Wait_nonzero j) = c"
    using assms(3) by (rule goto_same)
  have three: "replicate 3 p = [p, p, p]" and five: "replicate 5 p = [p, p, p, p, p]"
    by (simp_all add: numeral_eq_Suc)
  show ?thesis
    using assms(3) again
    by (simp add: wait_number_eq wait_cond_slot [OF j p] three five run_Cons run_Nil
        proc_step_def Let_def goto_def num_def)
qed

section \<open>Mutual exclusion\<close>

subsection \<open>What a step leaves unchanged\<close>

lemma proc_step_others:
  "q \<noteq> p \<Longrightarrow> at (proc_step c p) q = at c q \<and> num (proc_step c p) q = num c q
     \<and> choosing (reg (proc_step c p)) ! q = choosing (reg c) ! q"
  by (cases "at c p") (auto simp add: proc_step_def goto_def num_def Let_def split: sum.splits)

lemma proc_step_shape: "inv_shape N c \<Longrightarrow> inv_shape N (proc_step c p)"
  by (cases "at c p") (auto simp add: proc_step_def goto_def inv_shape_def Let_def split: sum.splits)

lemma local_ok_cong:
  "at c' q = at c q \<Longrightarrow> num c' q = num c q \<Longrightarrow>
   choosing (reg c') ! q = choosing (reg c) ! q \<Longrightarrow> local_ok N c' q = local_ok N c q"
  by (simp add: local_ok_def)

lemma pair_ok_cong:
  "at c' i = at c i \<Longrightarrow> num c' i = num c i \<Longrightarrow> at c' j = at c j \<Longrightarrow> num c' j = num c j \<Longrightarrow>
   pair_ok c' i j = pair_ok c i j"
  by (simp add: pair_ok_def before_def)

lemma py_max_bounds:
  assumes "py_max vs = Inr m"
  shows "(\<forall>k < length vs. vs ! k \<le> m) \<and> m \<in> set vs"
proof -
  from assms have ne: "vs \<noteq> []" by (auto simp add: py_max_def)
  then have m: "m = Max (set vs)"
    using assms py_max_nonempty [OF ne] by simp
  have "\<forall>k < length vs. vs ! k \<le> Max (set vs)"
    by (simp add: Max_ge)
  moreover have "Max (set vs) \<in> set vs"
    using ne by (intro Max_in) simp_all
  ultimately show ?thesis using m by simp
qed

lemma py_max_empty: "py_max vs = Inl e \<Longrightarrow> vs = []"
  by (cases vs) (simp_all add: py_max_def)

lemma proc_step_local:
  assumes "inv_shape N c" and "p < N" and "\<forall>k < N. local_ok N c k"
  shows "local_ok N (proc_step c p) p"
proof -
  have lp: "local_ok N c p" using assms by simp
  have nonneg: "\<And>k. k < N \<Longrightarrow> 0 \<le> num c k"
  proof -
    fix k assume "k < N"
    then have "local_ok N c k" using assms by simp
    then show "0 \<le> num c k"
      by (cases "holding (at c k)") (auto simp add: local_ok_def)
  qed
  show ?thesis
  proof (cases "at c p")
    case (Scan vs)
    show ?thesis
    proof (cases "length vs < length (number (reg c))")
      case True
      then have "0 \<le> num c (length vs)"
        using nonneg [of "length vs"] assms(1) by (simp add: inv_shape_def)
      then show ?thesis
        using lp Scan True assms(1,2)
        by (auto simp add: proc_step_def goto_def local_ok_def num_def inv_shape_def Let_def)
    next
      case False
      then have len: "length vs = N"
        using lp Scan assms(1) by (simp add: local_ok_def inv_shape_def)
      then have "vs \<noteq> []" using assms(2) by auto
      then obtain m where m: "py_max vs = Inr m"
        by (cases vs) (auto simp add: py_max_def)
      have "m \<in> set vs" using py_max_bounds [OF m] by simp
      then have "0 \<le> m" using lp Scan by (simp add: local_ok_def)
      then show ?thesis
        using lp Scan False assms(1,2) m
        by (auto simp add: proc_step_def goto_def local_ok_def num_def inv_shape_def Let_def)
    qed
  qed (use lp assms(1,2) in \<open>auto simp add: proc_step_def goto_def local_ok_def num_def inv_shape_def Let_def\<close>)
qed

subsection \<open>A step keeps the invariant between the stepping process and any other\<close>

lemma pair_Scan_read:
  assumes "inv_shape N c" and "p < N" and "j < N" and "j \<noteq> p"
    and "local_ok N c p" and "local_ok N c j" and "pair_ok c p j" and "pair_ok c j p"
    and "at c p = Scan vs" and "length vs < length (number (reg c))"
  shows "pair_ok (proc_step c p) p j \<and> pair_ok (proc_step c p) j p"
  using assms
  apply (simp add: proc_step_def Let_def goto_def)
  apply (cases "j = length vs"; cases "at c j")
  apply (simp_all add: pair_ok_def before_def local_ok_def num_def inv_shape_def nth_append
      split: if_splits)
  apply (auto)?
  done

lemma pair_Scan_write:
  assumes "inv_shape N c" and "p < N" and "j < N" and "j \<noteq> p"
    and "local_ok N c p" and "local_ok N c j" and "pair_ok c p j" and "pair_ok c j p"
    and "at c p = Scan vs" and "\<not> length vs < length (number (reg c))"
  shows "pair_ok (proc_step c p) p j \<and> pair_ok (proc_step c p) j p"
proof -
  have len: "length vs = N"
    using assms by (simp add: local_ok_def inv_shape_def)
  then have "vs \<noteq> []" using assms(2) by auto
  then obtain m where m: "py_max vs = Inr m"
    by (cases vs) (auto simp add: py_max_def)
  have "vs ! j \<le> m" and "vs ! p \<le> m"
    using py_max_bounds [OF m] len assms(2,3) by simp_all
  with assms len m show ?thesis
    apply (simp add: proc_step_def Let_def goto_def)
    apply (cases "at c j")
    apply (simp_all add: pair_ok_def before_def local_ok_def num_def inv_shape_def
        split: if_splits)
    apply (auto)?
    done
qed

lemma pair_Raised:
  assumes "local_ok N c p" and "at c p = Raised e"
  shows "pair_ok (proc_step c p) p j \<and> pair_ok (proc_step c p) j p"
  using assms by (simp add: local_ok_def)

lemma pair_Idle:
  assumes "inv_shape N c" and "p < N" and "j < N" and "j \<noteq> p"
    and "local_ok N c p" and "local_ok N c j" and "pair_ok c p j" and "pair_ok c j p"
    and "at c p = Idle"
  shows "pair_ok (proc_step c p) p j \<and> pair_ok (proc_step c p) j p"
  using assms
  apply (simp add: proc_step_def Let_def goto_def)
  apply (cases "at c j")
  apply (simp_all add: pair_ok_def before_def local_ok_def num_def inv_shape_def split: if_splits)
  apply (auto)?
  done

lemma pair_Clear:
  assumes "inv_shape N c" and "p < N" and "j < N" and "j \<noteq> p"
    and "local_ok N c p" and "local_ok N c j" and "pair_ok c p j" and "pair_ok c j p"
    and "at c p = Clear"
  shows "pair_ok (proc_step c p) p j \<and> pair_ok (proc_step c p) j p"
  using assms
  apply (simp add: proc_step_def Let_def goto_def)
  apply (cases "at c j")
  apply (simp_all add: pair_ok_def before_def local_ok_def num_def inv_shape_def split: if_splits)
  apply (auto)?
  done

lemma pair_For:
  assumes "inv_shape N c" and "p < N" and "j < N" and "j \<noteq> p"
    and "local_ok N c p" and "local_ok N c j" and "pair_ok c p j" and "pair_ok c j p"
    and "at c p = For k"
  shows "pair_ok (proc_step c p) p j \<and> pair_ok (proc_step c p) j p"
  using assms
  apply (simp add: proc_step_def Let_def goto_def)
  apply (cases "j = k"; cases "at c j")
  apply (simp_all add: pair_ok_def before_def local_ok_def num_def inv_shape_def split: if_splits)
  apply (auto)?
  done

lemma pair_Wait_choosing:
  assumes "inv_shape N c" and "p < N" and "j < N" and "j \<noteq> p"
    and "local_ok N c p" and "local_ok N c j" and "pair_ok c p j" and "pair_ok c j p"
    and "at c p = Wait_choosing k"
  shows "pair_ok (proc_step c p) p j \<and> pair_ok (proc_step c p) j p"
  using assms
  apply (simp add: proc_step_def Let_def goto_def)
  apply (cases "j = k"; cases "at c j")
  apply (simp_all add: pair_ok_def before_def local_ok_def num_def inv_shape_def split: if_splits)
  apply (auto)?
  done

lemma pair_Wait_nonzero:
  assumes "inv_shape N c" and "p < N" and "j < N" and "j \<noteq> p"
    and "local_ok N c p" and "local_ok N c j" and "pair_ok c p j" and "pair_ok c j p"
    and "at c p = Wait_nonzero k"
  shows "pair_ok (proc_step c p) p j \<and> pair_ok (proc_step c p) j p"
  using assms
  apply (simp add: proc_step_def Let_def goto_def)
  apply (cases "j = k"; cases "at c j")
  apply (simp_all add: pair_ok_def before_def local_ok_def num_def inv_shape_def split: if_splits)
  apply (auto)?
  done

lemma pair_Less_j:
  assumes "inv_shape N c" and "p < N" and "j < N" and "j \<noteq> p"
    and "local_ok N c p" and "local_ok N c j" and "pair_ok c p j" and "pair_ok c j p"
    and "at c p = Less_j k"
  shows "pair_ok (proc_step c p) p j \<and> pair_ok (proc_step c p) j p"
  using assms
  apply (simp add: proc_step_def Let_def goto_def)
  apply (cases "j = k"; cases "at c j")
  apply (simp_all add: pair_ok_def before_def local_ok_def num_def inv_shape_def split: if_splits)
  apply (auto)?
  done

lemma pair_Less_pid:
  assumes "inv_shape N c" and "p < N" and "j < N" and "j \<noteq> p"
    and "local_ok N c p" and "local_ok N c j" and "pair_ok c p j" and "pair_ok c j p"
    and "at c p = Less_pid k a"
  shows "pair_ok (proc_step c p) p j \<and> pair_ok (proc_step c p) j p"
  using assms
  apply (simp add: proc_step_def Let_def goto_def)
  apply (cases "j = k"; cases "at c j")
  apply (simp_all add: pair_ok_def before_def local_ok_def num_def inv_shape_def split: if_splits)
  apply (auto)?
  done

lemma pair_Equal_j:
  assumes "inv_shape N c" and "p < N" and "j < N" and "j \<noteq> p"
    and "local_ok N c p" and "local_ok N c j" and "pair_ok c p j" and "pair_ok c j p"
    and "at c p = Equal_j k"
  shows "pair_ok (proc_step c p) p j \<and> pair_ok (proc_step c p) j p"
  using assms
  apply (simp add: proc_step_def Let_def goto_def)
  apply (cases "j = k"; cases "at c j")
  apply (simp_all add: pair_ok_def before_def local_ok_def num_def inv_shape_def split: if_splits)
  apply (auto)?
  done

lemma pair_Equal_pid:
  assumes "inv_shape N c" and "p < N" and "j < N" and "j \<noteq> p"
    and "local_ok N c p" and "local_ok N c j" and "pair_ok c p j" and "pair_ok c j p"
    and "at c p = Equal_pid k a"
  shows "pair_ok (proc_step c p) p j \<and> pair_ok (proc_step c p) j p"
  using assms
  apply (simp add: proc_step_def Let_def goto_def)
  apply (cases "j = k"; cases "at c j")
  apply (simp_all add: pair_ok_def before_def local_ok_def num_def inv_shape_def split: if_splits)
  apply (auto)?
  done

lemma pair_Critical:
  assumes "inv_shape N c" and "p < N" and "j < N" and "j \<noteq> p"
    and "local_ok N c p" and "local_ok N c j" and "pair_ok c p j" and "pair_ok c j p"
    and "at c p = Critical"
  shows "pair_ok (proc_step c p) p j \<and> pair_ok (proc_step c p) j p"
  using assms
  apply (simp add: proc_step_def Let_def goto_def)
  apply (cases "at c j")
  apply (simp_all add: pair_ok_def before_def local_ok_def num_def inv_shape_def split: if_splits)
  apply (auto)?
  done

subsection \<open>Every execution keeps the invariant\<close>

lemma inv_initial: "inv N (initial N)"
  by (simp add: inv_def inv_shape_def local_ok_def pair_ok_def initial_def BakeryLock_init_def
      py_repeat_def num_def)

lemma proc_step_pair:
  assumes "inv_shape N c" and "p < N" and "j < N" and "j \<noteq> p"
    and "local_ok N c p" and "local_ok N c j" and "pair_ok c p j" and "pair_ok c j p"
  shows "pair_ok (proc_step c p) p j \<and> pair_ok (proc_step c p) j p"
proof (cases "at c p")
  case Idle
  then show ?thesis by (rule pair_Idle [OF assms])
next
  case (Scan vs)
  show ?thesis
  proof (cases "length vs < length (number (reg c))")
    case True
    show ?thesis by (rule pair_Scan_read [OF assms Scan True])
  next
    case False
    show ?thesis by (rule pair_Scan_write [OF assms Scan False])
  qed
next
  case Clear
  then show ?thesis by (rule pair_Clear [OF assms])
next
  case (For k)
  then show ?thesis by (rule pair_For [OF assms])
next
  case (Wait_choosing k)
  then show ?thesis by (rule pair_Wait_choosing [OF assms])
next
  case (Wait_nonzero k)
  then show ?thesis by (rule pair_Wait_nonzero [OF assms])
next
  case (Less_j k)
  then show ?thesis by (rule pair_Less_j [OF assms])
next
  case (Less_pid k a)
  then show ?thesis by (rule pair_Less_pid [OF assms])
next
  case (Equal_j k)
  then show ?thesis by (rule pair_Equal_j [OF assms])
next
  case (Equal_pid k a)
  then show ?thesis by (rule pair_Equal_pid [OF assms])
next
  case Critical
  then show ?thesis by (rule pair_Critical [OF assms])
next
  case (Raised e)
  then show ?thesis by (rule pair_Raised [OF assms(5)])
qed

lemma inv_step:
  assumes "inv N c" and "p < N"
  shows "inv N (proc_step c p)"
proof -
  let ?c = "proc_step c p"
  have sh: "inv_shape N c" and loc: "\<And>i. i < N \<Longrightarrow> local_ok N c i"
    and pr: "\<And>i j. i < N \<Longrightarrow> j < N \<Longrightarrow> i \<noteq> j \<Longrightarrow> pair_ok c i j"
    using assms(1) by (simp_all add: inv_def)
  have 1: "inv_shape N ?c"
    by (rule proc_step_shape [OF sh])
  have 2: "local_ok N ?c i" if "i < N" for i
  proof (cases "i = p")
    case True
    have "local_ok N ?c p"
      by (rule proc_step_local [OF sh assms(2)]) (simp add: loc)
    then show ?thesis
      using True by simp
  next
    case False
    have "local_ok N ?c i = local_ok N c i"
      using proc_step_others [OF False, of c] by (intro local_ok_cong) simp_all
    then show ?thesis
      using loc [OF that] by simp
  qed
  have 3: "pair_ok ?c i j" if "i < N" and "j < N" and "i \<noteq> j" for i j
  proof -
    have both: "pair_ok ?c p q \<and> pair_ok ?c q p" if "q < N" and "q \<noteq> p" for q
      using that
      by (intro proc_step_pair [OF sh assms(2)] loc pr assms(2)) simp_all
    show ?thesis
    proof (cases "i = p")
      case True
      then show ?thesis using both [of j] that by simp
    next
      case ip: False
      show ?thesis
      proof (cases "j = p")
        case True
        then show ?thesis using both [of i] that by simp
      next
        case False
        have "pair_ok ?c i j = pair_ok c i j"
          using proc_step_others [OF ip, of c] proc_step_others [OF False, of c]
          by (intro pair_ok_cong) simp_all
        then show ?thesis using pr [OF that] by simp
      qed
    qed
  qed
  show ?thesis
    using 1 2 3 by (simp add: inv_def)
qed

lemma inv_run:
  assumes "inv N c" and "\<forall>p \<in> set sched. p < N"
  shows "inv N (run c sched)"
  using assms
proof (induction sched arbitrary: c)
  case Nil
  then show ?case by (simp add: run_def)
next
  case (Cons p ps)
  then have "inv N (run (proc_step c p) ps)"
    by (intro Cons.IH inv_step) simp_all
  then show ?case by (simp add: run_def)
qed

lemma inv_exclusive:
  assumes "inv N c" and "i < N" and "j < N" and "i \<noteq> j"
  shows "\<not> (at c i = Critical \<and> at c j = Critical)"
proof
  assume cs: "at c i = Critical \<and> at c j = Critical"
  have "pair_ok c i j"
    using assms by (simp add: inv_def)
  then show False
    using cs by (simp add: pair_ok_def before_def)
qed


text \<open>
  C1. In every execution of \<open>N\<close> client processes from the initial lock, whatever the
  interleaving of their reads and writes of the registry, no two distinct processes \<open>i\<close> and
  \<open>j\<close> are both between the return of their \<^verbatim>\<open>lock\<close> and the store of their
  \<^verbatim>\<open>unlock\<close>: at most one process is in its critical section at a time.
\<close>

theorem mutual_exclusion:
  assumes "\<forall>p \<in> set sched. p < N" and "i < N" and "j < N" and "i \<noteq> j"
  shows "\<not> (at (run (initial N) sched) i = Critical \<and> at (run (initial N) sched) j = Critical)"
  by (rule inv_exclusive [OF inv_run [OF inv_initial assms(1)] assms(2-4)])

theorem mutual_exclusion_witness:
  "at (run (initial 2) [0, 0, 0, 0, 0, 1, 1, 1, 1, 1, 0, 0, 0, 0, 0, 0, 0, 0, 0, 0, 0, 0, 0, 0, 0,
      1, 1, 1, 1, 1, 1, 1, 1]) 0 = Critical
   \<and> at (run (initial 2) [0, 0, 0, 0, 0, 1, 1, 1, 1, 1, 0, 0, 0, 0, 0, 0, 0, 0, 0, 0, 0, 0, 0, 0, 0,
      1, 1, 1, 1, 1, 1, 1, 1]) 1 \<noteq> Critical"
proof -
  let ?sched = "[0, 0, 0, 0, 0, 1, 1, 1, 1, 1, 0, 0, 0, 0, 0, 0, 0, 0, 0, 0, 0, 0, 0, 0, 0,
      1, 1, 1, 1, 1, 1, 1, 1] :: nat list"
  have valid: "\<forall>p \<in> set ?sched. p < 2" by simp
  have cs: "at (run (initial 2) ?sched) 0 = Critical"
    by (simp add: run_def initial_def BakeryLock_init_def py_repeat_def proc_step_def goto_def
        py_max_def numeral_2_eq_2)
  show ?thesis
    using mutual_exclusion [OF valid, of 0 1] cs by simp
qed

end
